theory Spec2Isabelle
  imports Main "HOL-Library.Word"
begin

section \<open>Values of the host language\<close>

text \<open>
  A Buffer is a list of bytes. The numbers the decoder computes with are either a
  non-negative integer or NaN (\<open>None\<close>): NaN arises from \<open>parseInt\<close> of the empty
  string and then flows through \<open>+\<close>, the comparisons and \<open>slice\<close>.

  Buffers have fewer than \<open>2 ^ 53\<close> elements, so the length of a buffer and an offset
  into it are exact integers of the host language; they are modelled as naturals.
  \<open>safeParseInt\<close> gives the integer that the digits stand for, where the source has the
  double nearest to it. \<open>_decode\<close> only compares that length with the length of a buffer
  and slices the buffer with it: on a buffer of fewer than \<open>2 ^ 53\<close> bytes the rounding
  changes neither (from \<open>2 ^ 53\<close> on, both the integer and its double are beyond the
  buffer), and the model of \<open>_decode\<close> leaves it out. \<open>getLength\<close> returns the number,
  and there it is rounded.
\<close>

type_synonym byte = "8 word"
type_synonym buffer = "byte list"
type_synonym num = "nat option"

text \<open>
  A number passed in by a caller is a double. Only two things are observed of it: whether
  it is falsy, and its text in base 16. A finite number is therefore kept as its sign
  (\<open>True\<close> for negative), its integer part and the hexadecimal digits, each below 16,
  that \<open>toString(16)\<close> prints after the point (none for an integer): \<open>-1\<close> is
  \<open>Finite True 1 []\<close> and \<open>1.5\<close>, printed \<open>1.8\<close>, is \<open>Finite False 1 [8]\<close>.
\<close>

datatype number = NaN | Infinity bool | Finite bool nat "nat list"

datatype jsval =
    JUndefined
  | JNull
  | JBoolean bool
  | JNumber number
  | JString string
  | JBuffer buffer
  | JArray "jsval list"
  | JObject "nat option" "nat list option"
  \<comment> \<open>any other object or function: its \<open>length\<close> when that is a non-negative integer,
      and what its \<open>toArray\<close> method returns when it has one\<close>

text \<open>What the decoder returns: a Buffer or an Array of such.\<close>

datatype item = Bytes buffer | List "item list"

text \<open>
  The messages of the \<open>Error\<close>s thrown in \<open>encode.js\<close>. The specification calls them
  RedundantLengthBytes (\<open>ExtraZeros\<close>), TrailingBytes (\<open>InvalidRemainder\<close>),
  NonCanonicalSingleByte (\<open>ByteMustBeLess\<close>), TruncatedInput (\<open>InvalidRLP\<close> for a string,
  \<open>TotalLengthLarger\<close> for a list) and InvalidInputType (\<open>InvalidType\<close>). No message
  stands for its InvalidListFraming, and it has no name for \<open>ListInvalidLength\<close>.
\<close>

datatype error =
    ExtraZeros          \<comment> \<open>\<open>invalid RLP: extra zeros\<close>\<close>
  | InvalidRemainder    \<comment> \<open>\<open>invalid remainder\<close>\<close>
  | ByteMustBeLess      \<comment> \<open>\<open>invalid rlp encoding: byte must be less 0x80\<close>\<close>
  | InvalidRLP          \<comment> \<open>\<open>invalid RLP\<close>\<close>
  | TotalLengthLarger   \<comment> \<open>\<open>invalid rlp: total length is larger than the data\<close>\<close>
  | ListInvalidLength   \<comment> \<open>\<open>invalid rlp, List has a invalid length\<close>\<close>
  | InvalidType         \<comment> \<open>\<open>invalid type\<close>\<close>

section \<open>Platform functions used by the codec\<close>

text \<open>\<open>buf.slice(start, end)\<close> and \<open>buf.slice(start)\<close>: both bounds are clamped.\<close>

definition slice :: "nat \<Rightarrow> nat \<Rightarrow> 'a list \<Rightarrow> 'a list" where
  "slice start end xs = take (end - start) (drop start xs)"

definition sliceFrom :: "nat \<Rightarrow> 'a list \<Rightarrow> 'a list" where
  "sliceFrom start xs = drop start xs"

text \<open>A NaN offset given to \<open>slice\<close> counts as 0.\<close>

definition toOffset :: "num \<Rightarrow> nat" where
  "toOffset n = (case n of None \<Rightarrow> 0 | Some k \<Rightarrow> k)"

definition plus_num :: "num \<Rightarrow> num \<Rightarrow> num" where
  "plus_num a b = (case a of None \<Rightarrow> None | Some x \<Rightarrow> (case b of None \<Rightarrow> None | Some y \<Rightarrow> Some (x + y)))"

text \<open>\<open>a < b\<close> on numbers: false as soon as one side is NaN.\<close>

definition less_num :: "num \<Rightarrow> num \<Rightarrow> bool" where
  "less_num a b = (case a of None \<Rightarrow> False | Some x \<Rightarrow> (case b of None \<Rightarrow> False | Some y \<Rightarrow> x < y))"

text \<open>
  The double nearest to a natural number (ties go to the even significand of 53 bits), for
  numbers below \<open>2 ^ 1024\<close>: up to \<open>2 ^ 53\<close> every natural number is a double, and
  beyond it the number is rounded to a multiple of the power of two that its length in
  bits gives.
\<close>

fun bitLength :: "nat \<Rightarrow> nat" where
  "bitLength n = (if n = 0 then 0 else Suc (bitLength (n div 2)))"

declare bitLength.simps [simp del]

definition toDouble :: "nat \<Rightarrow> nat" where
  "toDouble n =
     (if n < 2 ^ 53 then n
      else
        (let e = bitLength n - 53;
             q = n div 2 ^ e;
             r = n mod 2 ^ e;
             half = 2 ^ (e - 1)
         in if r < half \<or> (r = half \<and> even q) then q * 2 ^ e else (q + 1) * 2 ^ e))"

definition roundNum :: "num \<Rightarrow> num" where
  "roundNum n = (case n of None \<Rightarrow> None | Some k \<Rightarrow> Some (toDouble k))"

definition hexDigit :: "nat \<Rightarrow> char" where
  "hexDigit d = (if d < 10 then char_of (48 + d) else char_of (87 + d))"

text \<open>The value of a hexadecimal digit, upper or lower case.\<close>

definition unhex :: "char \<Rightarrow> nat option" where
  "unhex c =
     (let k = (of_char c :: nat) in
      if 48 \<le> k \<and> k \<le> 57 then Some (k - 48)
      else if 97 \<le> k \<and> k \<le> 102 then Some (k - 87)
      else if 65 \<le> k \<and> k \<le> 70 then Some (k - 55)
      else None)"

text \<open>\<open>i.toString(16)\<close> for a non-negative integer \<open>i\<close>.\<close>

fun toString16 :: "nat \<Rightarrow> string" where
  "toString16 n = (if n < 16 then [hexDigit n] else toString16 (n div 16) @ [hexDigit (n mod 16)])"

declare toString16.simps [simp del]

text \<open>\<open>v.toString(16)\<close> for any number.\<close>

fun numberToString16 :: "number \<Rightarrow> string" where
  "numberToString16 NaN = ''NaN''"
| "numberToString16 (Infinity neg) = (if neg then ''-Infinity'' else ''Infinity'')"
| "numberToString16 (Finite neg ip frac) =
     (if neg \<and> \<not> (ip = 0 \<and> frac = []) then ''-'' else '''') @ toString16 ip @
     (if frac = [] then '''' else CHR ''.'' # map hexDigit frac)"

text \<open>\<open>!v\<close> for a number: NaN and both zeros are falsy.\<close>

fun falsyNumber :: "number \<Rightarrow> bool" where
  "falsyNumber NaN = True"
| "falsyNumber (Infinity neg) = False"
| "falsyNumber (Finite neg ip frac) = (ip = 0 \<and> frac = [])"

text \<open>
  \<open>Buffer.from(s, 'hex')\<close>, as Node.js has it from version 8 on: two digits make a byte;
  decoding stops at the first pair that is not two hexadecimal digits, without an error,
  and a trailing single character is dropped.
\<close>

fun fromHex :: "string \<Rightarrow> buffer" where
  "fromHex (a # b # rest) =
     (case unhex a of
        None \<Rightarrow> []
      | Some x \<Rightarrow> (case unhex b of None \<Rightarrow> [] | Some y \<Rightarrow> of_nat (16 * x + y) # fromHex rest))"
| "fromHex _ = []"

text \<open>\<open>buf.toString('hex')\<close>.\<close>

definition byteToHex :: "byte \<Rightarrow> string" where
  "byteToHex b = [hexDigit (unat b div 16), hexDigit (unat b mod 16)]"

definition toStringHex :: "buffer \<Rightarrow> string" where
  "toStringHex buf = concat (map byteToHex buf)"

text \<open>
  \<open>parseInt(v, 16)\<close> on the text of \<open>toString('hex')\<close> (digits only, so no sign, blank or
  \<open>0x\<close> to skip): the value of the longest prefix of digits, NaN when there is none.
\<close>

fun parseDigits :: "nat \<Rightarrow> string \<Rightarrow> nat" where
  "parseDigits acc [] = acc"
| "parseDigits acc (c # cs) =
     (case unhex c of None \<Rightarrow> acc | Some d \<Rightarrow> parseDigits (16 * acc + d) cs)"

definition parseInt16 :: "string \<Rightarrow> num" where
  "parseInt16 v =
     (case v of
        [] \<Rightarrow> None
      | c # cs \<Rightarrow> (case unhex c of None \<Rightarrow> None | Some d \<Rightarrow> Some (parseDigits d cs)))"

text \<open>
  \<open>Buffer.from(s)\<close> for a string: UTF-8. The strings of the model hold code points below
  256, so a character is one byte below 128 and two bytes from 128 on.
\<close>

definition utf8Char :: "char \<Rightarrow> buffer" where
  "utf8Char c =
     (let k = (of_char c :: nat) in
      if k < 128 then [of_nat k] else [of_nat (192 + k div 64), of_nat (128 + k mod 64)])"

definition utf8 :: "string \<Rightarrow> buffer" where
  "utf8 s = concat (map utf8Char s)"

section \<open>The helpers of \<open>encode.js\<close>\<close>

definition safeParseInt :: "string \<Rightarrow> error + num" where
  "safeParseInt v = (if take 2 v = ''00'' then Inl ExtraZeros else Inr (parseInt16 v))"

definition isHexPrefixed :: "string \<Rightarrow> bool" where
  "isHexPrefixed str = (take 2 str = ''0x'')"

definition stripHexPrefix :: "string \<Rightarrow> string" where
  "stripHexPrefix str = (if isHexPrefixed str then drop 2 str else str)"

definition intToHex :: "number \<Rightarrow> string" where
  "intToHex i =
     (let hex = numberToString16 i in
      if length hex mod 2 \<noteq> 0 then CHR ''0'' # hex else hex)"

definition padToEven :: "string \<Rightarrow> string" where
  "padToEven a = (if length a mod 2 \<noteq> 0 then CHR ''0'' # a else a)"

definition intToBuffer :: "number \<Rightarrow> buffer" where
  "intToBuffer i = fromHex (intToHex i)"

text \<open>
  \<open>toBuffer\<close>. A boolean, an Array and an object without \<open>toArray\<close> reach the last
  \<open>else\<close>; \<open>Buffer.from\<close> of an array of numbers keeps each modulo 256.
\<close>

fun toBuffer :: "jsval \<Rightarrow> error + buffer" where
  "toBuffer (JBuffer v) = Inr v"
| "toBuffer (JString v) =
     Inr (if isHexPrefixed v then fromHex (padToEven (stripHexPrefix v)) else utf8 v)"
| "toBuffer (JNumber v) = Inr (if falsyNumber v then [] else intToBuffer v)"
| "toBuffer JNull = Inr []"
| "toBuffer JUndefined = Inr []"
| "toBuffer (JObject len (Some ds)) = Inr (map of_nat ds)"
| "toBuffer (JObject len None) = Inl InvalidType"
| "toBuffer (JBoolean b) = Inl InvalidType"
| "toBuffer (JArray vs) = Inl InvalidType"

text \<open>\<open>encodeLength\<close>; \<open>Buffer.from([n])\<close> keeps \<open>n\<close> modulo 256.\<close>

definition encodeLength :: "nat \<Rightarrow> nat \<Rightarrow> buffer" where
  "encodeLength len offset =
     (if len < 56 then [of_nat (len + offset)]
      else
        let hexLength = intToHex (Finite False len []);
            lLength = length hexLength div 2;
            firstByte = intToHex (Finite False (offset + 55 + lLength) [])
        in fromHex (firstByte @ hexLength))"

section \<open>The encoder\<close>

text \<open>
  \<open>encode\<close>, with the \<open>for\<close> loop over an Array as \<open>encode_each\<close>: an exception thrown
  for one element ends the whole call.
\<close>

fun encode :: "jsval \<Rightarrow> error + buffer"
  and encode_each :: "jsval list \<Rightarrow> buffer list \<Rightarrow> error + buffer list" where
  "encode (JArray input) =
     (case encode_each input [] of
        Inl e \<Rightarrow> Inl e
      | Inr output \<Rightarrow>
          (let buf = concat output in Inr (encodeLength (length buf) 192 @ buf)))"
| "encode input =
     (case toBuffer input of
        Inl e \<Rightarrow> Inl e
      | Inr input' \<Rightarrow>
          (if length input' = 1 \<and> input' ! 0 < 128 then Inr input'
           else Inr (encodeLength (length input') 128 @ input')))"
| "encode_each [] output = Inr output"
| "encode_each (x # xs) output =
     (case encode x of Inl e \<Rightarrow> Inl e | Inr b \<Rightarrow> encode_each xs (output @ [b]))"

section \<open>The decoder\<close>

text \<open>
  \<open>_decode\<close>, written \<open>decode'\<close>, and its two \<open>while (innerRemainder.length)\<close> loops,
  which are the same loop, written \<open>while_loop\<close>. The loop need not end (a remainder that
  \<open>_decode\<close> hands back unchanged is decoded again), so both take fuel: every pass of a
  loop uses one unit, and \<open>None\<close> means that the fuel ran out.

  On an empty buffer \<open>input[0]\<close> is \<open>undefined\<close>: every comparison of the chain is
  false, the last branch is taken with \<open>llength\<close>, \<open>length\<close> (written \<open>len\<close>) and \<open>totalLength\<close> all NaN,
  \<open>totalLength > input.length\<close> is false, the slice is empty and \<open>List has a invalid
  length\<close> is thrown. \<open>data[0] < 0x80\<close> is false when \<open>data\<close> is empty.
\<close>

fun decode' :: "nat \<Rightarrow> buffer \<Rightarrow> (error + item \<times> buffer) option"
  and while_loop :: "nat \<Rightarrow> buffer \<Rightarrow> item list \<Rightarrow> (error + item list) option" where
  "decode' fuel input =
     (case input of
        [] \<Rightarrow> Some (Inl ListInvalidLength)
      | firstByte # _ \<Rightarrow>
          if firstByte \<le> 0x7f then
            Some (Inr (Bytes (slice 0 1 input), sliceFrom 1 input))
          else if firstByte \<le> 0xb7 then
            (let len = unat firstByte - 0x7f;
                 data = (if firstByte = 0x80 then [] else slice 1 len input)
             in if len = 2 \<and> (case data of [] \<Rightarrow> False | d # _ \<Rightarrow> d < 0x80)
                then Some (Inl ByteMustBeLess)
                else Some (Inr (Bytes data, sliceFrom len input)))
          else if firstByte \<le> 0xbf then
            (let llength = unat firstByte - 0xb6 in
             case safeParseInt (toStringHex (slice 1 llength input)) of
               Inl e \<Rightarrow> Some (Inl e)
             | Inr len \<Rightarrow>
                 (let data = slice llength (toOffset (plus_num len (Some llength))) input
                  in if less_num (Some (length data)) len then Some (Inl InvalidRLP)
                     else Some (Inr (Bytes data,
                            sliceFrom (toOffset (plus_num len (Some llength))) input))))
          else if firstByte \<le> 0xf7 then
            (let len = unat firstByte - 0xbf;
                 innerRemainder = slice 1 len input
             in case while_loop fuel innerRemainder [] of
                  None \<Rightarrow> None
                | Some (Inl e) \<Rightarrow> Some (Inl e)
                | Some (Inr decoded) \<Rightarrow> Some (Inr (List decoded, sliceFrom len input)))
          else
            (let llength = unat firstByte - 0xf6 in
             case safeParseInt (toStringHex (slice 1 llength input)) of
               Inl e \<Rightarrow> Some (Inl e)
             | Inr len \<Rightarrow>
                 (let totalLength = plus_num (Some llength) len
                  in if less_num (Some (length input)) totalLength
                     then Some (Inl TotalLengthLarger)
                     else
                       (let innerRemainder = slice llength (toOffset totalLength) input
                        in if length innerRemainder = 0 then Some (Inl ListInvalidLength)
                           else
                             (case while_loop fuel innerRemainder [] of
                                None \<Rightarrow> None
                              | Some (Inl e) \<Rightarrow> Some (Inl e)
                              | Some (Inr decoded) \<Rightarrow>
                                  Some (Inr (List decoded,
                                    sliceFrom (toOffset totalLength) input)))))))"
| "while_loop 0 innerRemainder decoded =
     (if length innerRemainder \<noteq> 0 then None else Some (Inr decoded))"
| "while_loop (Suc fuel) innerRemainder decoded =
     (if length innerRemainder \<noteq> 0 then
        (case decode' fuel innerRemainder of
           None \<Rightarrow> None
         | Some (Inl e) \<Rightarrow> Some (Inl e)
         | Some (Inr (data, remainder)) \<Rightarrow> while_loop fuel remainder (decoded @ [data]))
      else Some (Inr decoded))"

declare decode'.simps [simp del]

text \<open>
  \<open>!input || input.length === 0\<close> at the head of \<open>decode\<close> and \<open>getLength\<close>. The
  \<open>length\<close> of a number or a boolean is \<open>undefined\<close>; an object counts as no input
  when its \<open>length\<close> is 0, whatever else it is.
\<close>

fun noInput :: "jsval \<Rightarrow> bool" where
  "noInput JUndefined = True"
| "noInput JNull = True"
| "noInput (JBoolean b) = (\<not> b)"
| "noInput (JNumber n) = falsyNumber n"
| "noInput (JString s) = (s = [])"
| "noInput (JBuffer b) = (b = [])"
| "noInput (JArray vs) = (vs = [])"
| "noInput (JObject len ds) = (len = Some 0)"

text \<open>\<open>decode\<close>: the exported function.\<close>

definition decode :: "nat \<Rightarrow> jsval \<Rightarrow> (error + item) option" where
  "decode fuel input =
     (if noInput input then Some (Inr (Bytes []))
      else
        (case toBuffer input of
           Inl e \<Rightarrow> Some (Inl e)
         | Inr input' \<Rightarrow>
             (case decode' fuel input' of
                None \<Rightarrow> None
              | Some (Inl e) \<Rightarrow> Some (Inl e)
              | Some (Inr (data, remainder)) \<Rightarrow>
                  if length remainder = 0 then Some (Inl InvalidRemainder)
                  else Some (Inr data))))"

section \<open>The length inspector\<close>

text \<open>
  \<open>getLength\<close> returns a Buffer or a number. On an empty buffer (reached from the string
  \<open>0x\<close>, say) the last branch computes NaN, as in \<open>_decode\<close>. The number of the last
  branch is returned to the caller, so it is the double that the source computes: the
  parsed length rounded, and then the sum rounded.
\<close>

datatype length_result = LengthBuffer buffer | LengthNumber num

definition getLength :: "jsval \<Rightarrow> error + length_result" where
  "getLength input =
     (if noInput input then Inr (LengthBuffer [])
      else
        (case toBuffer input of
           Inl e \<Rightarrow> Inl e
         | Inr input' \<Rightarrow>
             (case input' of
                [] \<Rightarrow> Inr (LengthNumber None)
              | firstByte # _ \<Rightarrow>
                  if firstByte \<le> 0x7f then Inr (LengthNumber (Some (length input')))
                  else if firstByte \<le> 0xb7 then Inr (LengthNumber (Some (unat firstByte - 0x7f)))
                  else if firstByte \<le> 0xbf then Inr (LengthNumber (Some (unat firstByte - 0xb6)))
                  else if firstByte \<le> 0xf7 then Inr (LengthNumber (Some (unat firstByte - 0xbf)))
                  else
                    (let llength = unat firstByte - 0xf6 in
                     case safeParseInt (toStringHex (slice 1 llength input')) of
                       Inl e \<Rightarrow> Inl e
                     | Inr len \<Rightarrow>
                         Inr (LengthNumber
                               (roundNum (plus_num (Some llength) (roundNum len))))))))"

section \<open>Big-endian numbers, as the specification words them\<close>

text \<open>
  The minimal big-endian byte representation of a length, with no leading zero byte, and
  the number that a sequence of bytes stands for. Both follow the specification's wording
  and are what the code is compared with; neither is taken from the code.
\<close>

fun minimalBigEndian :: "nat \<Rightarrow> buffer" where
  "minimalBigEndian n =
     (if n = 0 then [] else minimalBigEndian (n div 256) @ [of_nat (n mod 256)])"

declare minimalBigEndian.simps [simp del]

definition bigEndianValue :: "buffer \<Rightarrow> nat" where
  "bigEndianValue bs = foldl (\<lambda>acc b. 256 * acc + unat b) 0 bs"

text \<open>An item as the value handed to \<open>encode\<close>: a Buffer, or an Array of such.\<close>

fun toJs :: "item \<Rightarrow> jsval" where
  "toJs (Bytes b) = JBuffer b"
| "toJs (List xs) = JArray (map toJs xs)"

text \<open>
  For the proofs: the bytes that \<open>encode\<close> returns for an item (lemma \<open>encode_toJs\<close>), and
  an amount of fuel that is enough to decode them again.
\<close>

fun encoded :: "item \<Rightarrow> buffer" where
  "encoded (Bytes b) =
     (if length b = 1 \<and> b ! 0 < 128 then b else encodeLength (length b) 128 @ b)"
| "encoded (List xs) =
     encodeLength (length (concat (map encoded xs))) 192 @ concat (map encoded xs)"

fun fuelFor :: "item \<Rightarrow> nat" where
  "fuelFor (Bytes b) = 0"
| "fuelFor (List xs) = length xs + sum_list (map fuelFor xs)"

section \<open>Hexadecimal text and bytes\<close>

lemma unhex_hexDigit: "d < 16 \<Longrightarrow> unhex (hexDigit d) = Some d"
  by (auto simp: unhex_def hexDigit_def Let_def)

lemma hi_nibble: "unat (b :: byte) div 16 < 16"
proof -
  have "unat b < 256" using unsigned_less [of b] by simp
  then show ?thesis by simp
qed

lemma unhex_hi: "unhex (hexDigit (unat (b :: byte) div 16)) = Some (unat b div 16)"
  by (rule unhex_hexDigit [OF hi_nibble])

lemma unhex_lo: "unhex (hexDigit (unat (b :: byte) mod 16)) = Some (unat b mod 16)"
  by (rule unhex_hexDigit) simp

lemma byte_of_nibbles: "(of_nat (16 * (unat b div 16) + unat b mod 16) :: byte) = b"
  by simp

lemma fromHex_byteToHex: "fromHex (byteToHex b @ s) = b # fromHex s"
  by (simp add: byteToHex_def unhex_hi unhex_lo)

lemma fromHex_toStringHex: "fromHex (toStringHex bs @ s) = bs @ fromHex s"
  by (induction bs) (simp_all add: toStringHex_def fromHex_byteToHex)

lemma length_toStringHex: "length (toStringHex bs) = 2 * length bs"
  by (induction bs) (simp_all add: toStringHex_def byteToHex_def)

lemma parseDigits_toStringHex:
  "parseDigits acc (toStringHex bs) = foldl (\<lambda>acc b. 256 * acc + unat b) acc bs"
proof (induction bs arbitrary: acc)
  case Nil
  then show ?case by (simp add: toStringHex_def)
next
  case (Cons b bs)
  have "parseDigits acc (toStringHex (b # bs)) =
        parseDigits (16 * (16 * acc + unat b div 16) + unat b mod 16) (toStringHex bs)"
    by (simp add: toStringHex_def byteToHex_def unhex_hi unhex_lo)
  also have "16 * (16 * acc + unat b div 16) + unat b mod 16 = 256 * acc + unat b"
    by simp
  finally show ?case using Cons.IH by simp
qed

lemma parseInt16_toStringHex:
  "bs \<noteq> [] \<Longrightarrow> parseInt16 (toStringHex bs) = Some (bigEndianValue bs)"
proof (cases bs)
  case Nil
  then show "bs \<noteq> [] \<Longrightarrow> ?thesis" by simp
next
  case (Cons b bs')
  have "parseInt16 (toStringHex (b # bs')) =
        Some (parseDigits (16 * (unat b div 16) + unat b mod 16) (toStringHex bs'))"
    by (simp add: parseInt16_def toStringHex_def byteToHex_def unhex_hi unhex_lo)
  then show ?thesis using Cons
    by (simp add: parseDigits_toStringHex bigEndianValue_def)
qed

lemma hexDigit_zero_iff: "d < 16 \<Longrightarrow> hexDigit d = CHR ''0'' \<longleftrightarrow> d = 0"
proof -
  assume d: "d < 16"
  have "unhex (CHR ''0'') = Some 0" by (simp add: unhex_def)
  moreover have "hexDigit 0 = CHR ''0''" by code_simp
  ultimately show ?thesis using unhex_hexDigit [OF d] by auto
qed

lemma take2_toStringHex:
  "take 2 (toStringHex bs) = ''00'' \<longleftrightarrow> bs \<noteq> [] \<and> hd bs = 0"
proof (cases bs)
  case Nil
  then show ?thesis by (simp add: toStringHex_def)
next
  case (Cons b bs')
  have "unat b div 16 = 0 \<and> unat b mod 16 = 0 \<longleftrightarrow> b = 0"
    by (metis div_mult_mod_eq add.right_neutral mult_zero_right unat_eq_zero unat_0 div_0 mod_0 mult_zero_left)
  then show ?thesis using Cons
    by (simp add: toStringHex_def byteToHex_def hexDigit_zero_iff hi_nibble)
qed

lemma safeParseInt_toStringHex:
  "safeParseInt (toStringHex bs) =
     (if bs = [] then Inr None else if hd bs = 0 then Inl ExtraZeros
      else Inr (Some (bigEndianValue bs)))"
  by (simp add: safeParseInt_def take2_toStringHex parseInt16_toStringHex)
     (simp add: toStringHex_def parseInt16_def)


section \<open>The five branches of the decoder\<close>

lemma byte_ranges:
  "(b :: byte) \<le> 0x7f \<longleftrightarrow> unat b \<le> 127"
  "(b :: byte) \<le> 0xb7 \<longleftrightarrow> unat b \<le> 183"
  "(b :: byte) \<le> 0xbf \<longleftrightarrow> unat b \<le> 191"
  "(b :: byte) \<le> 0xf7 \<longleftrightarrow> unat b \<le> 247"
  "0x80 \<le> (b :: byte) \<longleftrightarrow> 128 \<le> unat b"
  "0xb8 \<le> (b :: byte) \<longleftrightarrow> 184 \<le> unat b"
  "0xc0 \<le> (b :: byte) \<longleftrightarrow> 192 \<le> unat b"
  "0xf8 \<le> (b :: byte) \<longleftrightarrow> 248 \<le> unat b"
  "(b :: byte) < 0x80 \<longleftrightarrow> unat b < 128"
  by (simp_all add: word_le_nat_alt word_less_nat_alt)

lemma decode'_long_string:
  assumes "0xb8 \<le> b" "b \<le> 0xbf"
  shows "decode' fuel (b # rest) =
     (let lol = unat b - 0xb7; lf = take lol rest in
      if lf = [] then Some (Inr (Bytes [], b # rest))
      else if hd lf = 0 then Some (Inl ExtraZeros)
      else if length rest - lol < bigEndianValue lf then Some (Inl InvalidRLP)
      else Some (Inr (Bytes (take (bigEndianValue lf) (drop lol rest)),
                      drop (lol + bigEndianValue lf) rest)))"
proof -
  from assms have b: "184 \<le> unat b" "unat b \<le> 191"
    by (simp_all add: word_le_nat_alt)
  then have c: "\<not> b \<le> 0x7f" "\<not> b \<le> 0xb7" "b \<le> 0xbf"
    by (simp_all add: word_le_nat_alt)
  define n where "n = unat b - 184"
  with b have ub: "unat b = 184 + n" by simp
  have s: "slice 1 (unat b - 0xb6) (b # rest) = take (unat b - 0xb7) rest"
    by (simp add: slice_def ub)
  show ?thesis
    apply (subst decode'.simps)
    apply (simp only: list.case c if_True if_False Let_def s safeParseInt_toStringHex)
    apply (auto simp: slice_def sliceFrom_def toOffset_def plus_num_def less_num_def Let_def
        drop_Cons' ub add.commute)
    done
qed

lemma decode'_single_byte:
  assumes "b \<le> 0x7f"
  shows "decode' fuel (b # rest) = Some (Inr (Bytes [b], rest))"
  by (subst decode'.simps) (simp add: assms slice_def sliceFrom_def)

lemma decode'_short_string:
  assumes "0x80 \<le> b" "b \<le> 0xb7"
  shows "decode' fuel (b # rest) =
     (if unat b - 0x80 = 1 \<and> rest \<noteq> [] \<and> hd rest < 0x80 then Some (Inl ByteMustBeLess)
      else Some (Inr (Bytes (take (unat b - 0x80) rest), drop (unat b - 0x80) rest)))"
proof -
  from assms have b: "128 \<le> unat b" "unat b \<le> 183"
    by (simp_all add: byte_ranges)
  then have c: "\<not> b \<le> 0x7f" "b \<le> 0xb7"
    by (simp_all add: byte_ranges)
  have z: "b = 0x80 \<longleftrightarrow> unat b = 128"
    by (simp add: word_unat_eq_iff)
  define n where "n = unat b - 128"
  with b have ub: "unat b = 128 + n" by simp
  show ?thesis
    apply (subst decode'.simps)
    apply (simp only: list.case c if_True if_False Let_def)
    apply (cases rest)
     apply (auto simp: slice_def sliceFrom_def drop_Cons' take_Cons' z ub)
    done
qed


lemma decode'_short_list:
  assumes "0xc0 \<le> b" "b \<le> 0xf7"
  shows "decode' fuel (b # rest) =
     (case while_loop fuel (take (unat b - 0xc0) rest) [] of
        None \<Rightarrow> None
      | Some (Inl e) \<Rightarrow> Some (Inl e)
      | Some (Inr decoded) \<Rightarrow> Some (Inr (List decoded, drop (unat b - 0xc0) rest)))"
proof -
  from assms have b: "192 \<le> unat b" "unat b \<le> 247"
    by (simp_all add: byte_ranges)
  then have c: "\<not> b \<le> 0x7f" "\<not> b \<le> 0xb7" "\<not> b \<le> 0xbf" "b \<le> 0xf7"
    by (simp_all add: byte_ranges)
  define n where "n = unat b - 192"
  with b have ub: "unat b = 192 + n" by simp
  have s: "slice 1 (unat b - 0xbf) (b # rest) = take (unat b - 0xc0) rest"
    "sliceFrom (unat b - 0xbf) (b # rest) = drop (unat b - 0xc0) rest"
    by (simp_all add: slice_def sliceFrom_def ub)
  show ?thesis
    apply (subst decode'.simps)
    apply (simp only: list.case c if_True if_False Let_def s)
    done
qed

lemma decode'_long_list:
  assumes "0xf8 \<le> b"
  shows "decode' fuel (b # rest) =
     (let lol = unat b - 0xf7; lf = take lol rest in
      if lf = [] then Some (Inl ListInvalidLength)
      else if hd lf = 0 then Some (Inl ExtraZeros)
      else if length rest < lol + bigEndianValue lf then Some (Inl TotalLengthLarger)
      else if take (bigEndianValue lf) (drop lol rest) = [] then Some (Inl ListInvalidLength)
      else
        (case while_loop fuel (take (bigEndianValue lf) (drop lol rest)) [] of
           None \<Rightarrow> None
         | Some (Inl e) \<Rightarrow> Some (Inl e)
         | Some (Inr decoded) \<Rightarrow>
             Some (Inr (List decoded, drop (lol + bigEndianValue lf) rest))))"
proof -
  from assms have b: "248 \<le> unat b"
    by (simp_all add: byte_ranges)
  then have c: "\<not> b \<le> 0x7f" "\<not> b \<le> 0xb7" "\<not> b \<le> 0xbf" "\<not> b \<le> 0xf7"
    by (simp_all add: byte_ranges)
  define n where "n = unat b - 248"
  with b have ub: "unat b = 248 + n" by simp
  have s: "slice 1 (unat b - 0xf6) (b # rest) = take (unat b - 0xf7) rest"
    by (simp add: slice_def ub)
  show ?thesis
    apply (subst decode'.simps)
    apply (simp only: list.case c if_True if_False Let_def s safeParseInt_toStringHex)
    apply (auto simp: slice_def sliceFrom_def toOffset_def plus_num_def less_num_def Let_def
        drop_Cons' ub add.commute split: option.splits sum.splits)
    done
qed

lemma while_loop_grows:
  "while_loop fuel r acc = Some (Inr items) \<Longrightarrow>
     length acc \<le> length items \<and> (r \<noteq> [] \<longrightarrow> length acc < length items)"
proof (induction fuel arbitrary: r acc)
  case 0
  then show ?case by (simp split: if_splits)
next
  case (Suc fuel)
  show ?case
  proof (cases "r = []")
    case True
    with Suc.prems show ?thesis by simp
  next
    case False
    with Suc.prems obtain d r' where
      "while_loop fuel r' (acc @ [d]) = Some (Inr items)"
      by (auto split: option.splits sum.splits)
    from Suc.IH [OF this] show ?thesis by simp
  qed
qed

lemma foldl_be_ge: "acc \<le> foldl (\<lambda>acc b. 256 * acc + unat (b :: byte)) acc bs"
proof (induction bs arbitrary: acc)
  case Nil
  show ?case by simp
next
  case (Cons b bs)
  have "acc \<le> 256 * acc + unat b" by simp
  also have "\<dots> \<le> foldl (\<lambda>acc b. 256 * acc + unat b) (256 * acc + unat b) bs"
    by (rule Cons.IH)
  finally show ?case by simp
qed

lemma bigEndianValue_pos:
  assumes "bs \<noteq> []" "hd bs \<noteq> 0"
  shows "0 < bigEndianValue bs"
proof -
  from assms obtain b bs' where bs: "bs = b # bs'" and b: "b \<noteq> 0"
    by (cases bs) auto
  from b have "0 < unat b" by (simp add: unat_gt_0)
  also have "unat b \<le> bigEndianValue bs"
    using foldl_be_ge [of "unat b" bs'] by (simp add: bs bigEndianValue_def)
  finally show ?thesis .
qed

section \<open>Lengths in base 16\<close>

lemma intToHex_nat:
  "intToHex (Finite False n []) =
     (if length (toString16 n) mod 2 \<noteq> 0 then CHR ''0'' # toString16 n else toString16 n)"
  by (simp add: intToHex_def Let_def)

lemma toString16_small: "n < 16 \<Longrightarrow> toString16 n = [hexDigit n]"
  by (subst toString16.simps) simp

lemma toString16_byte:
  "16 \<le> n \<Longrightarrow> n < 256 \<Longrightarrow> toString16 n = [hexDigit (n div 16), hexDigit (n mod 16)]"
  by (subst toString16.simps) (simp add: toString16_small)

lemma toString16_step:
  assumes "256 \<le> n"
  shows "toString16 n = toString16 (n div 256) @ [hexDigit (n div 16 mod 16), hexDigit (n mod 16)]"
proof -
  from assms have a: "\<not> n < 16" "\<not> n div 16 < 16" by simp_all
  have d: "n div 16 div 16 = n div 256" by (simp add: div_mult2_eq)
  have "toString16 n = toString16 (n div 16) @ [hexDigit (n mod 16)]"
    using a(1) by (subst toString16.simps) simp
  also have "toString16 (n div 16) = toString16 (n div 256) @ [hexDigit (n div 16 mod 16)]"
    using a(2) d by (subst toString16.simps) simp
  finally show ?thesis by simp
qed

lemma minimalBigEndian_0: "minimalBigEndian 0 = []"
  by (subst minimalBigEndian.simps) simp

lemma minimalBigEndian_step:
  "0 < n \<Longrightarrow> minimalBigEndian n = minimalBigEndian (n div 256) @ [of_nat (n mod 256)]"
  by (subst minimalBigEndian.simps) simp

lemma toStringHex_snoc: "toStringHex (bs @ [b]) = toStringHex bs @ byteToHex b"
  by (simp add: toStringHex_def)

lemma byteToHex_of_nat:
  "byteToHex (of_nat (n mod 256)) = [hexDigit (n div 16 mod 16), hexDigit (n mod 16)]"
proof -
  have u: "unat (of_nat (n mod 256) :: byte) = n mod 256"
    by (simp add: unat_of_nat)
  have "n mod 256 = 16 * (n div 16 mod 16) + n mod 16"
    using mod_mult2_eq [of n 16 16] by simp
  then have "n mod 256 div 16 = n div 16 mod 16"
    by simp
  moreover have "n mod 256 mod 16 = n mod 16"
    by (simp add: mod_mod_cancel)
  ultimately show ?thesis
    by (simp add: byteToHex_def u)
qed

lemma intToHex_minimalBigEndian:
  "0 < n \<Longrightarrow> intToHex (Finite False n []) = toStringHex (minimalBigEndian n)"
proof (induction n rule: less_induct)
  case (less n)
  show ?case
  proof (cases "n < 256")
    case True
    have m: "minimalBigEndian n = [of_nat (n mod 256)]"
      using True less.prems by (simp add: minimalBigEndian_step minimalBigEndian_0)
    have h0: "hexDigit 0 = CHR ''0''" by code_simp
    show ?thesis
    proof (cases "n < 16")
      case True
      then show ?thesis
        using byteToHex_of_nat [of n]
        by (simp add: intToHex_nat toString16_small m toStringHex_def h0)
    next
      case False
      then show ?thesis
        using byteToHex_of_nat [of n] \<open>n < 256\<close>
        by (simp add: intToHex_nat toString16_byte m toStringHex_def)
    qed
  next
    case False
    then have n: "256 \<le> n" "0 < n div 256" "n div 256 < n"
      by (simp_all add: div_greater_zero_iff)
    have "intToHex (Finite False n []) =
            intToHex (Finite False (n div 256) []) @ [hexDigit (n div 16 mod 16), hexDigit (n mod 16)]"
      by (simp add: intToHex_nat toString16_step [OF n(1)])
    also have "\<dots> = toStringHex (minimalBigEndian (n div 256)) @ byteToHex (of_nat (n mod 256))"
      using less.IH [OF n(3) n(2)] by (simp add: byteToHex_of_nat)
    also have "\<dots> = toStringHex (minimalBigEndian n)"
      using less.prems by (simp add: minimalBigEndian_step toStringHex_snoc)
    finally show ?thesis .
  qed
qed

lemma length_minimalBigEndian: "n < 256 ^ k \<Longrightarrow> length (minimalBigEndian n) \<le> k"
proof (induction k arbitrary: n)
  case 0
  then show ?case by (simp add: minimalBigEndian_0)
next
  case (Suc k)
  show ?case
  proof (cases "n = 0")
    case True
    then show ?thesis by (simp add: minimalBigEndian_0)
  next
    case False
    from Suc.prems have "n div 256 < 256 ^ k"
      by (simp add: less_mult_imp_div_less mult.commute)
    from Suc.IH [OF this] False show ?thesis
      by (simp add: minimalBigEndian_step)
  qed
qed

lemma bigEndianValue_snoc: "bigEndianValue (bs @ [b]) = 256 * bigEndianValue bs + unat b"
  by (simp add: bigEndianValue_def)

lemma bigEndianValue_minimalBigEndian: "bigEndianValue (minimalBigEndian n) = n"
proof (induction n rule: less_induct)
  case (less n)
  show ?case
  proof (cases "n = 0")
    case True
    then show ?thesis by (simp add: minimalBigEndian_0 bigEndianValue_def)
  next
    case False
    then have "n div 256 < n" by simp
    from less.IH [OF this] False show ?thesis
      by (simp add: minimalBigEndian_step bigEndianValue_snoc unat_of_nat)
  qed
qed

lemma minimalBigEndian_leading:
  "0 < n \<Longrightarrow> minimalBigEndian n \<noteq> [] \<and> hd (minimalBigEndian n) \<noteq> 0"
proof (induction n rule: less_induct)
  case (less n)
  show ?case
  proof (cases "n < 256")
    case True
    with less.prems have "(of_nat n :: byte) \<noteq> 0"
      by (simp add: of_nat_0_eq_iff unat_of_nat word_unat_eq_iff)
    with True less.prems show ?thesis
      by (simp add: minimalBigEndian_step minimalBigEndian_0)
  next
    case False
    then have n: "0 < n div 256" "n div 256 < n"
      by (simp_all add: div_greater_zero_iff)
    from less.IH [OF n(2) n(1)] less.prems show ?thesis
      by (simp add: minimalBigEndian_step)
  qed
qed

lemma unat_marker: "k < 256 \<Longrightarrow> unat (of_nat k :: byte) = k"
  by (simp add: unat_of_nat)

lemma encodeLength_short: "len < 56 \<Longrightarrow> encodeLength len offset = [of_nat (len + offset)]"
  by (simp add: encodeLength_def)

lemma encodeLength_long:
  assumes "\<not> len < 56" and "len < 2 ^ 64" and "offset = 0x80 \<or> offset = 0xc0"
  shows "encodeLength len offset =
           of_nat (offset + 55 + length (minimalBigEndian len)) # minimalBigEndian len"
    and "length (minimalBigEndian len) \<le> 8"
proof -
  define lengthBytes where "lengthBytes = minimalBigEndian len"
  have "len < 256 ^ 8" using assms(2) by simp
  then show l8: "length (minimalBigEndian len) \<le> 8"
    by (rule length_minimalBigEndian)
  from assms(1) have pos: "0 < len" by simp
  define marker where "marker = offset + 55 + length lengthBytes"
  have mpos: "0 < marker" "marker < 256"
    using l8 assms(3) by (auto simp: marker_def lengthBytes_def)
  then have mm: "minimalBigEndian marker = [of_nat marker]"
    by (simp add: minimalBigEndian_step minimalBigEndian_0)
  have hexLength: "intToHex (Finite False len []) = toStringHex lengthBytes"
    unfolding lengthBytes_def by (rule intToHex_minimalBigEndian [OF pos])
  have "encodeLength len offset =
          fromHex (intToHex (Finite False marker []) @ toStringHex lengthBytes)"
    using assms(1) by (simp add: encodeLength_def Let_def hexLength length_toStringHex marker_def)
  also have "\<dots> = fromHex (toStringHex ([of_nat marker] @ lengthBytes) @ [])"
    by (simp add: intToHex_minimalBigEndian [OF mpos(1)] mm toStringHex_def)
  also have "\<dots> = of_nat marker # lengthBytes"
    by (simp only: fromHex_toStringHex) simp
  finally show "encodeLength len offset =
           of_nat (offset + 55 + length (minimalBigEndian len)) # minimalBigEndian len"
    by (simp add: marker_def lengthBytes_def)
qed

lemma encodeLength_nonempty: "encodeLength len offset \<noteq> []"
proof (cases "len < 56")
  case True
  then show ?thesis by (simp add: encodeLength_def)
next
  case False
  define marker where "marker = offset + 55 + length (intToHex (Finite False len [])) div 2"
  have "0 < marker" by (simp add: marker_def)
  then have "intToHex (Finite False marker []) = toStringHex (minimalBigEndian marker)"
    "minimalBigEndian marker \<noteq> []"
    by (simp_all add: intToHex_minimalBigEndian minimalBigEndian_leading)
  with False show ?thesis
    by (simp add: encodeLength_def Let_def marker_def [symmetric] fromHex_toStringHex)
qed

section \<open>The loop over a list's payload\<close>

text \<open>
  A loop that does not end: the one-byte remainder \<open>[0xb8]\<close> is a long-string marker
  with no length byte, \<open>_decode\<close> returns the empty string and the same remainder, and the
  loop decodes it again. The source pushes empty strings for ever; the model runs out of
  fuel, whatever the fuel.
\<close>

lemma while_loop_same_remainder: "while_loop fuel [0xb8] acc = None"
proof (induction fuel arbitrary: acc)
  case 0
  show ?case by simp
next
  case (Suc fuel)
  have "decode' fuel [0xb8] = Some (Inr (Bytes [], [0xb8]))"
    by (simp add: decode'_long_string)
  with Suc show ?case by simp
qed

lemma decode'_no_length_byte:
  "0xb8 \<le> b \<Longrightarrow> b \<le> 0xbf \<Longrightarrow> decode' fuel [b] = Some (Inr (Bytes [], [b]))"
  by (simp add: decode'_long_string)

lemma decode'_never_returns: "decode' fuel [0xc1, 0xb8] = None"
  by (simp add: decode'_short_list while_loop_same_remainder)

section \<open>Decoding what the encoder wrote\<close>

lemma encode_each_toJs:
  assumes "\<And>x. x \<in> set xs \<Longrightarrow> encode (toJs x) = Inr (encoded x)"
  shows "encode_each (map toJs xs) out = Inr (out @ map encoded xs)"
  using assms by (induction xs arbitrary: out) simp_all

lemma encode_toJs: "encode (toJs x) = Inr (encoded x)"
proof (induction x)
  case (Bytes b)
  show ?case by simp
next
  case (List xs)
  then show ?case by (simp add: encode_each_toJs Let_def)
qed

lemma encoded_nonempty: "encoded x \<noteq> []"
  by (cases x) (auto simp: encodeLength_nonempty)

lemma while_loop_nil: "while_loop fuel [] acc = Some (Inr acc)"
  by (cases fuel) simp_all

lemma while_loop_encoded:
  assumes dec: "\<And>x fuel rest. x \<in> set xs \<Longrightarrow> fuelFor x \<le> fuel \<Longrightarrow>
      decode' fuel (encoded x @ rest) = Some (Inr (x, rest))"
    and "length xs + sum_list (map fuelFor xs) \<le> fuel"
  shows "while_loop fuel (concat (map encoded xs)) acc = Some (Inr (acc @ xs))"
  using assms
proof (induction xs arbitrary: fuel acc)
  case Nil
  then show ?case by (simp add: while_loop_nil)
next
  case (Cons x xs)
  from Cons.prems(2) obtain n where n: "fuel = Suc n" by (cases fuel) auto
  with Cons.prems(2) have f: "fuelFor x \<le> n" "length xs + sum_list (map fuelFor xs) \<le> n"
    by simp_all
  have d: "decode' n (encoded x @ concat (map encoded xs)) = Some (Inr (x, concat (map encoded xs)))"
    by (rule Cons.prems(1)) (simp_all add: f)
  have w: "while_loop n (concat (map encoded xs)) (acc @ [x]) = Some (Inr ((acc @ [x]) @ xs))"
    by (rule Cons.IH) (simp_all add: Cons.prems(1) f)
  show ?case
    using encoded_nonempty [of x] by (simp add: n d w)
qed


lemma length_le_concat: "x \<in> set xs \<Longrightarrow> length (f x) \<le> length (concat (map f xs))"
  by (induction xs) auto

lemma decode'_encoded_bytes:
  assumes "length (encoded (Bytes b)) < 2 ^ 64"
  shows "decode' fuel (encoded (Bytes b) @ rest) = Some (Inr (Bytes b, rest))"
proof -
  consider (single) "length b = 1 \<and> b ! 0 < 128"
    | (short) "\<not> (length b = 1 \<and> b ! 0 < 128)" "length b < 56"
    | (long) "\<not> length b < 56"
    by blast
  then show ?thesis
  proof cases
    case single
    then obtain c where b: "b = [c]" and c: "c < 128"
      by (cases b) auto
    from c have "c \<le> 0x7f" by (simp add: byte_ranges)
    then show ?thesis by (simp add: b c decode'_single_byte)
  next
    case short
    define fb :: byte where "fb = of_nat (length b + 128)"
    have u: "unat fb = length b + 128"
      unfolding fb_def using short(2) by (intro unat_marker) simp
    then have r: "0x80 \<le> fb" "fb \<le> 0xb7"
      using short(2) by (simp_all add: byte_ranges)
    have e: "encoded (Bytes b) = fb # b"
      using short by (simp add: encodeLength_short fb_def)
    have "\<not> (length b = 1 \<and> b @ rest \<noteq> [] \<and> hd (b @ rest) < 0x80)"
    proof
      assume a: "length b = 1 \<and> b @ rest \<noteq> [] \<and> hd (b @ rest) < 0x80"
      then obtain c where "b = [c]" by (cases b) auto
      with a short(1) show False by simp
    qed
    then show ?thesis
      unfolding e by (simp add: decode'_short_string [OF r] u)
  next
    case long
    define lf where "lf = minimalBigEndian (length b)"
    define fb :: byte where "fb = of_nat (128 + 55 + length lf)"
    have e0: "encoded (Bytes b) = encodeLength (length b) 128 @ b"
      using long by (cases "length b = 1") simp_all
    with assms have "length b < 2 ^ 64" by simp
    from encodeLength_long [OF long this, of 128]
    have el: "encodeLength (length b) 128 = fb # lf" and l8: "length lf \<le> 8"
      by (simp_all add: fb_def lf_def)
    from long have "0 < length b" by (cases b) simp_all
    from minimalBigEndian_leading [OF this]
    have lf: "lf \<noteq> []" "hd lf \<noteq> 0" by (simp_all add: lf_def)
    have v: "bigEndianValue lf = length b"
      by (simp add: lf_def bigEndianValue_minimalBigEndian)
    have "unat fb = 128 + 55 + length lf"
      unfolding fb_def using l8 by (intro unat_marker) simp
    then have u: "unat fb = 183 + length lf" by simp
    with l8 lf(1) have r: "0xb8 \<le> fb" "fb \<le> 0xbf"
      by (simp_all add: byte_ranges Suc_le_eq)
    show ?thesis
      unfolding e0 el using lf by (simp add: decode'_long_string [OF r] u Let_def v)
  qed
qed


lemma decode'_encoded_list:
  assumes loop: "while_loop fuel (concat (map encoded xs)) [] = Some (Inr xs)"
    and "length (encoded (List xs)) < 2 ^ 64"
  shows "decode' fuel (encoded (List xs) @ rest) = Some (Inr (List xs, rest))"
proof -
  define payload where "payload = concat (map encoded xs)"
  have e0: "encoded (List xs) = encodeLength (length payload) 192 @ payload"
    by (simp add: payload_def)
  show ?thesis
  proof (cases "length payload < 56")
    case True
    define fb :: byte where "fb = of_nat (length payload + 192)"
    have u: "unat fb = length payload + 192"
      unfolding fb_def using True by (intro unat_marker) simp
    then have r: "0xc0 \<le> fb" "fb \<le> 0xf7"
      using True by (simp_all add: byte_ranges)
    have e: "encoded (List xs) = fb # payload"
      unfolding e0 using True by (simp add: encodeLength_short fb_def)
    show ?thesis
      unfolding e using loop by (simp add: decode'_short_list [OF r] u payload_def)
  next
    case False
    define lf where "lf = minimalBigEndian (length payload)"
    define fb :: byte where "fb = of_nat (192 + 55 + length lf)"
    from assms(2) have "length payload < 2 ^ 64"
      unfolding e0 by simp
    from encodeLength_long [OF False this, of 192]
    have el: "encodeLength (length payload) 192 = fb # lf" and l8: "length lf \<le> 8"
      by (simp_all add: fb_def lf_def)
    from False have p: "payload \<noteq> []" by (cases payload) simp_all
    then have "0 < length payload" by simp
    from minimalBigEndian_leading [OF this]
    have lf: "lf \<noteq> []" "hd lf \<noteq> 0" by (simp_all add: lf_def)
    have v: "bigEndianValue lf = length payload"
      by (simp add: lf_def bigEndianValue_minimalBigEndian)
    have "unat fb = 192 + 55 + length lf"
      unfolding fb_def using l8 by (intro unat_marker) simp
    then have u: "unat fb = 247 + length lf" by simp
    with lf(1) have r: "0xf8 \<le> fb"
      by (simp add: byte_ranges Suc_le_eq)
    show ?thesis
      unfolding e0 el using lf p loop
      by (simp add: decode'_long_list [OF r] u Let_def v payload_def [symmetric])
  qed
qed

lemma decode'_encoded:
  "length (encoded x) < 2 ^ 64 \<Longrightarrow> fuelFor x \<le> fuel \<Longrightarrow>
     decode' fuel (encoded x @ rest) = Some (Inr (x, rest))"
proof (induction x arbitrary: fuel rest)
  case (Bytes b)
  from Bytes(1) show ?case by (rule decode'_encoded_bytes)
next
  case (List xs)
  have small: "length (encoded x) < 2 ^ 64" if "x \<in> set xs" for x
  proof -
    have "length (encoded x) \<le> length (concat (map encoded xs))"
      using that by (rule length_le_concat)
    also have "\<dots> \<le> length (encoded (List xs))" by simp
    finally show ?thesis using List.prems(1) by simp
  qed
  have "while_loop fuel (concat (map encoded xs)) [] = Some (Inr ([] @ xs))"
  proof (rule while_loop_encoded)
    fix x n r
    assume "x \<in> set xs" "fuelFor x \<le> n"
    then show "decode' n (encoded x @ r) = Some (Inr (x, r))"
      using List.IH small by blast
  next
    show "length xs + sum_list (map fuelFor xs) \<le> fuel"
      using List.prems(2) by simp
  qed
  then show ?case
    using List.prems(1) by (simp add: decode'_encoded_list del: encoded.simps)
qed

section \<open>Numbers given to the coercion\<close>

lemma toDouble_small: "n < 2 ^ 53 \<Longrightarrow> toDouble n = n"
  by (simp add: toDouble_def)

lemma toString16_nonempty: "toString16 n \<noteq> []"
  by (subst toString16.simps) simp

lemma unhex_minus: "unhex CHR ''-'' = None"
  by (simp add: unhex_def)

lemma toBuffer_negative: "toBuffer (JNumber (Finite True ip frac)) = Inr []"
proof (cases "ip = 0 \<and> frac = []")
  case True
  then show ?thesis by simp
next
  case False
  obtain c t where t: "toString16 ip = c # t"
    using toString16_nonempty [of ip] by (cases "toString16 ip") auto
  define tail where "tail = t @ (if frac = [] then [] else CHR ''.'' # map hexDigit frac)"
  have hex: "numberToString16 (Finite True ip frac) = CHR ''-'' # c # tail"
    using False by (auto simp: t tail_def)
  have "intToBuffer (Finite True ip frac) = []"
    by (simp add: intToBuffer_def intToHex_def hex Let_def unhex_minus
          del: numberToString16.simps split: option.splits)
  with False show ?thesis by auto
qed

lemma toBuffer_positive_integer:
  "toBuffer (JNumber (Finite False (Suc n) [])) = Inr (minimalBigEndian (Suc n))"
proof -
  have "intToHex (Finite False (Suc n) []) = toStringHex (minimalBigEndian (Suc n))"
    by (rule intToHex_minimalBigEndian) simp
  then have "intToBuffer (Finite False (Suc n) []) = minimalBigEndian (Suc n)"
    using fromHex_toStringHex [of "minimalBigEndian (Suc n)" "[]"]
    by (simp add: intToBuffer_def)
  then show ?thesis by simp
qed

section \<open>The claims\<close>

text \<open>
  Claim C1 (round trip). For an item \<open>x\<close>, \<open>decode\<close> of \<open>encode x\<close> is expected to return
  \<open>x\<close>. What the code does instead, for every item \<open>x\<close> whose encoding \<open>e\<close> is shorter
  than \<open>2 ^ 64\<close> bytes and with enough fuel: \<open>_decode\<close> does return \<open>x\<close> and an empty
  remainder, and \<open>decode\<close> then throws \<open>invalid remainder\<close>, because it throws when the
  remainder is empty.
\<close>

theorem decode_of_encode_fails:
  assumes "encode (toJs x) = Inr e" and "length e < 2 ^ 64" and "fuelFor x \<le> fuel"
  shows "decode' fuel e = Some (Inr (x, [])) \<and>
         decode fuel (JBuffer e) = Some (Inl InvalidRemainder)"
proof -
  from assms(1) have e: "e = encoded x" by (simp add: encode_toJs)
  with assms(2) have "length (encoded x) < 2 ^ 64" by simp
  from decode'_encoded [OF this assms(3), of "[]"]
  have d: "decode' fuel e = Some (Inr (x, []))" by (simp add: e)
  moreover have "e \<noteq> []" by (simp add: e encoded_nonempty)
  ultimately show ?thesis by (simp add: decode_def)
qed

theorem decode_of_encode_fails_witness:
  "encode (toJs (List [Bytes [0x63, 0x61, 0x74], Bytes [0x64, 0x6f, 0x67]])) =
     Inr [0xc8, 0x83, 0x63, 0x61, 0x74, 0x83, 0x64, 0x6f, 0x67] \<and>
   decode 2 (JBuffer [0xc8, 0x83, 0x63, 0x61, 0x74, 0x83, 0x64, 0x6f, 0x67]) =
     Some (Inl InvalidRemainder)"
proof -
  have e: "encode (toJs (List [Bytes [0x63, 0x61, 0x74], Bytes [0x64, 0x6f, 0x67]])) =
     Inr [0xc8, 0x83, 0x63, 0x61, 0x74, 0x83, 0x64, 0x6f, 0x67]"
    by code_simp
  have l: "length [0xc8, 0x83, 0x63, 0x61, 0x74, 0x83, 0x64, 0x6f, 0x67 :: byte] < 2 ^ 64"
    by simp
  have f: "fuelFor (List [Bytes [0x63, 0x61, 0x74], Bytes [0x64, 0x6f, 0x67]]) \<le> 2"
    by simp
  from decode_of_encode_fails [OF e l f] e show ?thesis by simp
qed

text \<open>
  Claim C2 (the whole buffer is one item). \<open>decode\<close> is expected to fail on an encoded
  item followed by extra bytes and to succeed on an encoded item alone. What the code does
  instead, for every item \<open>x\<close> whose encoding \<open>e\<close> is shorter than \<open>2 ^ 64\<close> bytes and
  with enough fuel: on \<open>e\<close> followed by any extra bytes \<open>decode\<close> returns \<open>x\<close>, and on
  \<open>e\<close> alone it throws \<open>invalid remainder\<close>.
\<close>

theorem decode_wants_trailing_bytes:
  assumes "encode (toJs x) = Inr e" and "length e < 2 ^ 64" and "fuelFor x \<le> fuel"
  shows "(extra \<noteq> [] \<longrightarrow> decode fuel (JBuffer (e @ extra)) = Some (Inr x)) \<and>
         decode fuel (JBuffer e) = Some (Inl InvalidRemainder)"
proof -
  from assms(1) have e: "e = encoded x" by (simp add: encode_toJs)
  with assms(2) have l: "length (encoded x) < 2 ^ 64" by simp
  have ne: "e \<noteq> []" by (simp add: e encoded_nonempty)
  have "decode' fuel (e @ rest) = Some (Inr (x, rest))" for rest
    using decode'_encoded [OF l assms(3), of rest] by (simp add: e)
  from this [of extra] this [of "[]"] ne show ?thesis
    by (simp add: decode_def)
qed

theorem decode_wants_trailing_bytes_witness:
  "decode 0 (JBuffer [0x83, 0x64, 0x6f, 0x67, 0x00]) = Some (Inr (Bytes [0x64, 0x6f, 0x67])) \<and>
   decode 0 (JBuffer [0x83, 0x64, 0x6f, 0x67]) = Some (Inl InvalidRemainder)"
proof -
  have e: "encode (toJs (Bytes [0x64, 0x6f, 0x67])) = Inr [0x83, 0x64, 0x6f, 0x67]"
    by code_simp
  have l: "length [0x83, 0x64, 0x6f, 0x67 :: byte] < 2 ^ 64"
    by simp
  have f: "fuelFor (Bytes [0x64, 0x6f, 0x67]) \<le> 0"
    by simp
  from decode_wants_trailing_bytes [OF e l f, of "[0x00]"] show ?thesis by simp
qed

text \<open>
  Claim C3 (length inspector). \<open>getLength\<close> is expected to return prefix length plus
  payload length in each of the five branches. What the code returns on a buffer that
  starts with the byte \<open>b\<close>: the expected number for a short string and a short list,
  and for a long list whose total is below \<open>2 ^ 53\<close> (beyond it, that number as the double
  arithmetic of the source rounds it); for a long string the prefix length
  \<open>1 + (b - 0xb7)\<close> alone, without the payload length (2 instead of 58 for a string of 56
  bytes); for a single byte the length of the whole buffer (2 for \<open>[0x05, 0x06]\<close>).
\<close>

theorem getLength_branches:
  "getLength (JBuffer (b # rest)) =
     (if b \<le> 0x7f then Inr (LengthNumber (Some (1 + length rest)))
      else if b \<le> 0xb7 then Inr (LengthNumber (Some (1 + (unat b - 0x80))))
      else if b \<le> 0xbf then Inr (LengthNumber (Some (1 + (unat b - 0xb7))))
      else if b \<le> 0xf7 then Inr (LengthNumber (Some (1 + (unat b - 0xc0))))
      else if rest = [] then Inr (LengthNumber None)
      else if hd rest = 0 then Inl ExtraZeros
      else if 1 + (unat b - 0xf7) + bigEndianValue (take (unat b - 0xf7) rest) < 2 ^ 53
      then Inr (LengthNumber
             (Some (1 + (unat b - 0xf7) + bigEndianValue (take (unat b - 0xf7) rest))))
      else Inr (LengthNumber
             (Some (toDouble (1 + (unat b - 0xf7) +
                      toDouble (bigEndianValue (take (unat b - 0xf7) rest))))))) \<and>
   getLength (JBuffer ([0xb8, 0x38] @ replicate 56 0x61)) = Inr (LengthNumber (Some 2)) \<and>
   getLength (JBuffer [0x05, 0x06]) = Inr (LengthNumber (Some 2)) \<and>
   getLength (JBuffer [0xfe, 0x20, 0x00, 0x00, 0x00, 0x00, 0x00, 0x01]) =
     Inr (LengthNumber (Some 9007199254741000))"
proof -
  have general: "getLength (JBuffer (b # rest)) =
     (if b \<le> 0x7f then Inr (LengthNumber (Some (1 + length rest)))
      else if b \<le> 0xb7 then Inr (LengthNumber (Some (1 + (unat b - 0x80))))
      else if b \<le> 0xbf then Inr (LengthNumber (Some (1 + (unat b - 0xb7))))
      else if b \<le> 0xf7 then Inr (LengthNumber (Some (1 + (unat b - 0xc0))))
      else if rest = [] then Inr (LengthNumber None)
      else if hd rest = 0 then Inl ExtraZeros
      else if 1 + (unat b - 0xf7) + bigEndianValue (take (unat b - 0xf7) rest) < 2 ^ 53
      then Inr (LengthNumber
             (Some (1 + (unat b - 0xf7) + bigEndianValue (take (unat b - 0xf7) rest))))
      else Inr (LengthNumber
             (Some (toDouble (1 + (unat b - 0xf7) +
                      toDouble (bigEndianValue (take (unat b - 0xf7) rest)))))))"
    for b rest
  proof (cases "b \<le> 0xf7")
    case True
    then show ?thesis
      by (auto simp: getLength_def byte_ranges)
  next
    case False
    then have c: "\<not> b \<le> 0x7f" "\<not> b \<le> 0xb7" "\<not> b \<le> 0xbf"
      by (simp_all add: byte_ranges)
    define n where "n = unat b - 248"
    with False have ub: "unat b = 248 + n" by (simp add: byte_ranges)
    define v where "v = bigEndianValue (take (Suc n) rest)"
    have s: "slice 1 (Suc (Suc n)) (b # rest) = take (Suc n) rest"
      by (simp add: slice_def)
    have t: "take (Suc n) rest = [] \<longleftrightarrow> rest = []" "hd (take (Suc n) rest) = hd rest"
      by (cases rest; simp)+
    have k: "unat b - 0xf7 = Suc n" "unat b - 0xf6 = Suc (Suc n)"
      by (simp_all add: ub)
    have small: "toDouble (Suc (Suc n) + toDouble v) = 1 + Suc n + v" if "1 + Suc n + v < 2 ^ 53"
    proof -
      from that have "v < 2 ^ 53" by simp
      then have "toDouble v = v" by (rule toDouble_small)
      with that show ?thesis by (simp add: toDouble_small)
    qed
    have sum: "Suc (Suc n) + toDouble v = 1 + Suc n + toDouble v"
      by simp
    have g: "getLength (JBuffer (b # rest)) =
       (if rest = [] then Inr (LengthNumber None)
        else if hd rest = 0 then Inl ExtraZeros
        else Inr (LengthNumber (Some (toDouble (Suc (Suc n) + toDouble v)))))"
      unfolding getLength_def
      by (simp only: noInput.simps toBuffer.simps sum.case list.case c False if_False Let_def
            s safeParseInt_toStringHex t k v_def [symmetric])
         (simp add: plus_num_def roundNum_def)
    show ?thesis
    proof (cases "1 + Suc n + v < 2 ^ 53")
      case True
      show ?thesis
        unfolding k v_def [symmetric]
        by (simp only: g c False if_False True if_True small [OF True])
    next
      case big: False
      show ?thesis
        unfolding k v_def [symmetric]
        by (simp only: g c False if_False big sum)
    qed
  qed
  have b1: "bitLength 9007199254740993 = 54" "bitLength 9007199254741000 = 54"
    by (simp_all add: bitLength.simps)
  have r: "toDouble 9007199254740993 = 9007199254740992"
    "toDouble 9007199254741000 = 9007199254741000"
    by (simp_all add: toDouble_def b1 Let_def)
  have "getLength (JBuffer ([0xb8, 0x38] @ replicate 56 0x61)) = Inr (LengthNumber (Some 2))"
    by code_simp
  moreover have "getLength (JBuffer [0x05, 0x06]) = Inr (LengthNumber (Some 2))"
    by code_simp
  moreover have "getLength (JBuffer [0xfe, 0x20, 0x00, 0x00, 0x00, 0x00, 0x00, 0x01]) =
     Inr (LengthNumber (Some 9007199254741000))"
    by (simp add: getLength_def slice_def safeParseInt_toStringHex bigEndianValue_def
        roundNum_def plus_num_def r)
  ultimately show ?thesis using general by blast
qed

text \<open>
  Claim C4 (list framing). A child whose declared length overruns the payload span of its
  list is expected to make the decoder fail. What the code does when the span of a list
  is the one byte \<open>m\<close> of a short string that declares one byte or more (\<open>m\<close> from
  \<open>0x81\<close> to \<open>0xb7\<close>): \<open>_decode\<close> returns the list of one empty string, the child cut to
  nothing without a failure, and leaves what follows the list as remainder, so that
  \<open>decode\<close> returns that list when bytes follow. A long-string child in the same place
  does fail: with the span \<open>[0xb8, 0x38]\<close>, which declares 56 bytes of which none is in
  the span, \<open>_decode\<close> throws \<open>invalid RLP\<close> whatever follows the list.
\<close>

theorem short_string_child_is_cut:
  assumes "0x81 \<le> m" and "m \<le> 0xb7"
  shows "decode' (Suc fuel) (0xc1 # m # after) = Some (Inr (List [Bytes []], after)) \<and>
         (after \<noteq> [] \<longrightarrow>
            decode (Suc fuel) (JBuffer (0xc1 # m # after)) = Some (Inr (List [Bytes []]))) \<and>
         decode' (Suc fuel) (0xc2 # 0xb8 # 0x38 # after) = Some (Inl InvalidRLP)"
proof -
  from assms(1) have "0x80 \<le> m"
    by (simp add: word_le_nat_alt)
  from decode'_short_string [OF this assms(2), of fuel "[]"]
  have child: "decode' fuel [m] = Some (Inr (Bytes [], []))" by simp
  have cut: "decode' (Suc fuel) (0xc1 # m # after) = Some (Inr (List [Bytes []], after))"
    by (simp add: decode'_short_list child while_loop_nil)
  have sibling: "decode' fuel [0xb8, 0x38] = Some (Inl InvalidRLP)"
    by (simp add: decode'_long_string bigEndianValue_def)
  have "decode' (Suc fuel) (0xc2 # 0xb8 # 0x38 # after) = Some (Inl InvalidRLP)"
    by (simp add: decode'_short_list sibling)
  with cut show ?thesis by (simp add: decode_def)
qed

theorem short_string_child_is_cut_witness:
  "decode' 1 [0xc1, 0x82, 0x61, 0x62] = Some (Inr (List [Bytes []], [0x61, 0x62])) \<and>
   decode 1 (JBuffer [0xc1, 0x82, 0x61, 0x62]) = Some (Inr (List [Bytes []])) \<and>
   decode' 1 [0xc2, 0xb8, 0x38, 0x61, 0x62] = Some (Inl InvalidRLP)"
  using short_string_child_is_cut [of "0x82" 0 "[0x61, 0x62]"] by simp

text \<open>
  Claim C5 (scalar coercion), as stated: \<open>toBuffer\<close> fails for every negative integer
  and every number that is not an integer. It does not: \<open>-1\<close> gives the empty buffer
  (its text \<open>-1\<close> has no leading pair of hexadecimal digits) and \<open>1.5\<close> gives the byte
  \<open>0x01\<close> (its text \<open>1.8\<close>, padded to \<open>01.8\<close>).
\<close>

theorem toBuffer_number_counterexample:
  "toBuffer (JNumber (Finite True 1 [])) = Inr [] \<and>
   toBuffer (JNumber (Finite False 1 [8])) = Inr [0x01]"
  by code_simp

text \<open>
  Claim C5, amended. \<open>toBuffer\<close> fails, and then with \<open>invalid type\<close>, exactly for the
  values that are no Buffer, string, number, \<open>null\<close> or \<open>undefined\<close> and have no
  \<open>toArray\<close>: an object without it, a boolean, an Array. It fails for no number: every
  negative number, NaN and the infinities give the empty byte sequence, and so does zero;
  a positive integer gives its minimal big-endian bytes; a positive number that is not an
  integer gives a byte sequence as well (\<open>[0x01]\<close> for \<open>1.5\<close>).
\<close>

theorem toBuffer_failures_and_numbers:
  "(toBuffer v = Inl e \<longleftrightarrow>
      e = InvalidType \<and>
      ((\<exists>len. v = JObject len None) \<or> (\<exists>b. v = JBoolean b) \<or> (\<exists>vs. v = JArray vs))) \<and>
   toBuffer (JNumber (Finite True ip frac)) = Inr [] \<and>
   toBuffer (JNumber (Infinity neg)) = Inr [] \<and>
   toBuffer (JNumber NaN) = Inr [] \<and>
   toBuffer (JNumber (Finite False 0 [])) = Inr [] \<and>
   toBuffer (JNumber (Finite False (Suc n) [])) = Inr (minimalBigEndian (Suc n)) \<and>
   (\<exists>bytes. toBuffer (JNumber (Finite False ip' frac')) = Inr bytes) \<and>
   toBuffer (JNumber (Finite False 1 [8])) = Inr [0x01]"
proof -
  have fails: "toBuffer v = Inl e \<longleftrightarrow>
      e = InvalidType \<and>
      ((\<exists>len. v = JObject len None) \<or> (\<exists>b. v = JBoolean b) \<or> (\<exists>vs. v = JArray vs))"
  proof (cases v)
    case (JObject len ds)
    then show ?thesis by (cases ds) auto
  qed auto
  have inf: "toBuffer (JNumber (Infinity neg)) = Inr []"
    by (cases neg) (simp_all add: intToBuffer_def intToHex_def unhex_def)
  have half: "toBuffer (JNumber (Finite False 1 [8])) = Inr [0x01]"
    by code_simp
  from fails inf half toBuffer_negative [of ip frac] toBuffer_positive_integer [of n]
  show ?thesis by simp
qed

text \<open>
  Claim C6 (canonical single byte). For every byte \<open>b\<close> below \<open>0x80\<close>, decoding the
  two bytes \<open>[0x81, b]\<close> fails with \<open>invalid rlp encoding: byte must be less 0x80\<close>, with
  any fuel.
\<close>

theorem decode_rejects_one_small_byte_string:
  "b < 0x80 \<Longrightarrow> decode fuel (JBuffer [0x81, b]) = Some (Inl ByteMustBeLess)"
  by (simp add: decode_def decode'_short_string)

theorem decode_rejects_one_small_byte_string_witness:
  "(0x00 :: byte) < 0x80 \<and> decode 0 (JBuffer [0x81, 0x00]) = Some (Inl ByteMustBeLess)"
  using decode_rejects_one_small_byte_string [of "0x00" 0] by simp

text \<open>
  Claim C7 (length prefix). For a base offset of \<open>0x80\<close> or \<open>0xc0\<close> and a payload length
  below \<open>2 ^ 64\<close> (which holds of the length of every Buffer): \<open>encodeLength\<close> returns the
  single byte \<open>offset + payloadLength\<close> when the length is below 56, and otherwise the
  marker byte \<open>offset + 55 + len(lengthBytes)\<close> followed by \<open>lengthBytes\<close>, the minimal
  big-endian bytes of the length; the marker fits a byte, \<open>lengthBytes\<close> stands for the
  length and has no leading zero byte. \<open>encodeLength\<close> returns a Buffer on every input.
\<close>

theorem encodeLength_spec:
  assumes "offset = 0x80 \<or> offset = 0xc0" and "payloadLength < 2 ^ 64"
  shows "encodeLength payloadLength offset =
           (if payloadLength < 56 then [of_nat (offset + payloadLength)]
            else of_nat (offset + 55 + length (minimalBigEndian payloadLength)) #
                 minimalBigEndian payloadLength) \<and>
         offset + 55 + length (minimalBigEndian payloadLength) < 256 \<and>
         bigEndianValue (minimalBigEndian payloadLength) = payloadLength \<and>
         (payloadLength = 0 \<or> hd (minimalBigEndian payloadLength) \<noteq> 0)"
proof -
  have "payloadLength < 256 ^ 8" using assms(2) by simp
  then have "length (minimalBigEndian payloadLength) \<le> 8"
    by (rule length_minimalBigEndian)
  with assms(1) have fits: "offset + 55 + length (minimalBigEndian payloadLength) < 256"
    by auto
  have lead: "payloadLength = 0 \<or> hd (minimalBigEndian payloadLength) \<noteq> 0"
    using minimalBigEndian_leading [of payloadLength] by auto
  have val: "bigEndianValue (minimalBigEndian payloadLength) = payloadLength"
    by (rule bigEndianValue_minimalBigEndian)
  show ?thesis
  proof (cases "payloadLength < 56")
    case True
    with fits lead val show ?thesis
      by (simp add: encodeLength_short add.commute)
  next
    case False
    from encodeLength_long(1) [OF False assms(2) assms(1)] False fits lead val
    show ?thesis by simp
  qed
qed

theorem encodeLength_spec_witness:
  "encodeLength 3 0x80 = [0x83] \<and> encodeLength 1024 0xc0 = [0xf9, 0x04, 0x00]"
proof -
  have m: "minimalBigEndian 1024 = [0x04, 0x00]" "minimalBigEndian 3 = [0x03]"
    by (simp_all add: minimalBigEndian.simps)
  show ?thesis
    using encodeLength_spec [of "0x80" 3] encodeLength_spec [of "0xc0" 1024]
    by (simp add: m)
qed

text \<open>
  Claim C8 (truncated input), as stated: a long form whose length field declares more
  bytes than remain makes \<open>decode\<close> fail with TruncatedInput. On \<open>[0xb9, 0x00, 0x38]\<close>
  the two bytes of the length field declare 56 bytes, none remains, and the failure is
  \<open>invalid RLP: extra zeros\<close>, which \<open>safeParseInt\<close> throws for the leading zero byte
  before any length is compared.
\<close>

theorem leading_zero_length_field_counterexample:
  "decode 0 (JBuffer [0xb9, 0x00, 0x38]) = Some (Inl ExtraZeros) \<and>
   decode 0 (JBuffer [0xb9, 0x00, 0x38]) \<noteq> Some (Inl InvalidRLP) \<and>
   bigEndianValue [0x00, 0x38] = 56"
  by (simp add: decode_def decode'_long_string bigEndianValue_def)

text \<open>
  Claim C8, amended. For a buffer in long-string or long-list form in which at least one
  byte follows the first, with the length field being the bytes that \<open>_decode\<close> reads as
  the length (as many as the first byte asks for, or as are there): when the length field
  starts with a zero byte \<open>decode\<close> fails with \<open>invalid RLP: extra zeros\<close>; otherwise,
  when it declares more bytes than follow it, \<open>decode\<close> fails with \<open>invalid RLP\<close> for a
  string and with \<open>invalid rlp: total length is larger than the data\<close> for a list;
  with any fuel. Nothing is said of a buffer that ends with its first byte, which has no
  length field (lemma \<open>decode'_no_length_byte\<close> is what the long-string branch does
  there).
\<close>

theorem decode_long_form_length_field:
  assumes "0xb8 \<le> b \<and> b \<le> 0xbf \<or> 0xf8 \<le> b"
    and "lengthField = take (unat b - (if b \<le> 0xbf then 0xb7 else 0xf7)) rest"
    and "lengthField \<noteq> []"
  shows "(hd lengthField = 0 \<longrightarrow>
            decode fuel (JBuffer (b # rest)) = Some (Inl ExtraZeros)) \<and>
         (hd lengthField \<noteq> 0 \<and>
          length rest - (unat b - (if b \<le> 0xbf then 0xb7 else 0xf7))
            < bigEndianValue lengthField \<longrightarrow>
            decode fuel (JBuffer (b # rest)) =
              Some (Inl (if b \<le> 0xbf then InvalidRLP else TotalLengthLarger)))"
proof (cases "b \<le> 0xbf")
  case True
  with assms(1) have r: "0xb8 \<le> b" "b \<le> 0xbf"
    by (auto simp: byte_ranges)
  show ?thesis
    using assms(2,3) True
    by (auto simp: decode_def decode'_long_string [OF r] Let_def)
next
  case False
  with assms(1) have r: "0xf8 \<le> b" by simp
  have "length rest < unat b - 0xf7 + bigEndianValue lengthField"
    if "hd lengthField \<noteq> 0" "length rest - (unat b - 0xf7) < bigEndianValue lengthField"
  proof -
    have "0 < bigEndianValue lengthField"
      using assms(3) that(1) by (rule bigEndianValue_pos)
    with that(2) show ?thesis by simp
  qed
  then show ?thesis
    using assms(2,3) False
    by (auto simp: decode_def decode'_long_list [OF r] Let_def)
qed

theorem decode_long_form_length_field_witness:
  "decode 0 (JBuffer [0xb9, 0x00, 0x38]) = Some (Inl ExtraZeros) \<and>
   decode 0 (JBuffer [0xb8, 0x38]) = Some (Inl InvalidRLP) \<and>
   decode 0 (JBuffer [0xf9, 0x01, 0x00, 0xc0]) = Some (Inl TotalLengthLarger)"
proof -
  have v: "bigEndianValue [0x38] = 56" "bigEndianValue [0x01, 0x00] = 256"
    by (simp_all add: bigEndianValue_def)
  show ?thesis
    using decode_long_form_length_field [of "0xb9" "[0x00, 0x38]" "[0x00, 0x38]" 0]
      decode_long_form_length_field [of "0xb8" "[0x38]" "[0x38]" 0]
      decode_long_form_length_field [of "0xf9" "[0x01, 0x00]" "[0x01, 0x00, 0xc0]" 0]
    by (simp add: v)
qed

text \<open>
  Claim C9 (empty long list), as stated: a long list whose parsed payload length is zero
  fails with \<open>invalid rlp, List has a invalid length\<close>. On \<open>[0xf8, 0x00]\<close>, whose length
  field says zero and whose declared total fits the buffer, the failure is
  \<open>invalid RLP: extra zeros\<close> instead.
\<close>

theorem long_list_zero_length_counterexample:
  "decode 0 (JBuffer [0xf8, 0x00]) = Some (Inl ExtraZeros) \<and>
   decode 0 (JBuffer [0xf8, 0x00]) \<noteq> Some (Inl ListInvalidLength)"
  by (simp add: decode_def decode'_long_list)

text \<open>
  Claim C9, amended. A buffer in long-list form (first byte from \<open>0xf8\<close>) never decodes
  to the empty list. When nothing follows the first byte, so that the payload span is
  empty, it fails with \<open>invalid rlp, List has a invalid length\<close>; when the length field
  stands for zero it fails with \<open>invalid RLP: extra zeros\<close>.
\<close>

theorem long_list_never_empty:
  assumes "0xf8 \<le> b"
  shows "(rest = [] \<longrightarrow> decode fuel (JBuffer (b # rest)) = Some (Inl ListInvalidLength)) \<and>
         (rest \<noteq> [] \<and> bigEndianValue (take (unat b - 0xf7) rest) = 0 \<longrightarrow>
            decode fuel (JBuffer (b # rest)) = Some (Inl ExtraZeros)) \<and>
         decode' fuel (b # rest) \<noteq> Some (Inr (List [], r)) \<and>
         decode fuel (JBuffer (b # rest)) \<noteq> Some (Inr (List []))"
proof -
  from assms have lol: "0 < unat b - 0xf7"
    by (simp add: byte_ranges)
  have a: "decode fuel (JBuffer (b # rest)) = Some (Inl ListInvalidLength)" if "rest = []"
    using that by (simp add: decode_def decode'_long_list [OF assms])
  have b: "decode fuel (JBuffer (b # rest)) = Some (Inl ExtraZeros)"
    if "rest \<noteq> []" "bigEndianValue (take (unat b - 0xf7) rest) = 0"
  proof -
    from that(1) lol have ne: "take (unat b - 0xf7) rest \<noteq> []" by simp
    with that(2) have "hd (take (unat b - 0xf7) rest) = 0"
      using bigEndianValue_pos [of "take (unat b - 0xf7) rest"] by auto
    with ne show ?thesis
      by (simp add: decode_def decode'_long_list [OF assms] Let_def)
  qed
  have c: "decode' fuel (b # rest) \<noteq> Some (Inr (List [], r))" for r
  proof
    assume d: "decode' fuel (b # rest) = Some (Inr (List [], r))"
    define span where "span = take (bigEndianValue (take (unat b - 0xf7) rest)) (drop (unat b - 0xf7) rest)"
    from d have "span \<noteq> [] \<and> while_loop fuel span [] = Some (Inr [])"
      unfolding span_def decode'_long_list [OF assms] Let_def
      by (auto split: if_splits option.splits sum.splits)
    then show False
      using while_loop_grows [of fuel span "[]" "[]"] by simp
  qed
  have d: "decode fuel (JBuffer (b # rest)) \<noteq> Some (Inr (List []))"
    using c by (auto simp: decode_def split: option.splits sum.splits if_splits)
  from a b c d show ?thesis by blast
qed

theorem long_list_never_empty_witness:
  "decode 0 (JBuffer [0xf8]) = Some (Inl ListInvalidLength) \<and>
   decode 0 (JBuffer [0xff, 0x00, 0x00]) = Some (Inl ExtraZeros) \<and>
   decode 3 (JBuffer [0xf8, 0x01, 0xc0, 0x00]) \<noteq> Some (Inr (List []))"
proof -
  have v: "bigEndianValue [0x00, 0x00] = 0"
    by (simp add: bigEndianValue_def)
  show ?thesis
    using long_list_never_empty [of "0xf8" "[]" 0]
      long_list_never_empty [of "0xff" "[0x00, 0x00]" 0]
      long_list_never_empty [of "0xf8" "[0x01, 0xc0, 0x00]" 3]
    by (simp add: v)
qed

text \<open>
  Claim C10 (no input). \<open>getLength\<close> of \<open>null\<close>, of \<open>undefined\<close> and of the empty Buffer
  returns an empty Buffer, not a number, and throws nothing.
\<close>

theorem getLength_without_input:
  "getLength JNull = Inr (LengthBuffer []) \<and>
   getLength JUndefined = Inr (LengthBuffer []) \<and>
   getLength (JBuffer []) = Inr (LengthBuffer [])"
  by (simp add: getLength_def)

end
